theory Spec2Isabelle
  imports Main
begin

section \<open>The ZooKeeper registry client (registry/zk/zk_client.go)\<close>

text \<open>
  The development follows \<^verbatim>\<open>zk_client.go\<close>: the client record, the watch
  registry (\<^verbatim>\<open>registerEvent\<close>, \<^verbatim>\<open>unregisterEvent\<close>), the shutdown
  signal (\<^verbatim>\<open>stop\<close>, \<^verbatim>\<open>Close\<close>), the body of the event loop
  (\<^verbatim>\<open>handleZkEvent\<close>) and the node operations.

  Go values are modelled as follows. A non-nil pointer \<^verbatim>\<open>*chan struct{}\<close> is its
  address, a natural number; a pointer parameter that may be nil is an option. A Go
  \<^verbatim>\<open>error\<close> is an option of \<open>zk_error\<close> (\<open>None\<close> is \<^verbatim>\<open>nil\<close>). A run-time
  panic is the left summand of a result. Everything the client does to the outside
  (a store call, a send on a watcher channel, closing the session, closing the exit
  channel) is appended to the \<open>log\<close> field of the client, so that "no store call"
  and "released once" are statements about that log.
\<close>

subsection \<open>Errors, panics and effects\<close>

datatype zk_error =
    ZK_CLIENT_CONN_NIL_ERR
  | ErrNodeExists
  | ErrNoNode
  | ErrStore string
  | Errorf string
  | Annotated zk_error string

datatype panic = CloseOfClosedChannel | SliceBoundsOutOfRange | NilDereference

text \<open>\<^verbatim>\<open>jerrors.Annotatef(err, format, args...)\<close>: nil stays nil, any other error is
  wrapped together with the formatted message.\<close>

definition Annotatef :: "zk_error option \<Rightarrow> string \<Rightarrow> zk_error option" where
  "Annotatef err msg = (case err of None \<Rightarrow> None | Some e \<Rightarrow> Some (Annotated e msg))"

text \<open>\<^verbatim>\<open>jerrors.Cause\<close>: the innermost error under the annotations.\<close>

fun Cause :: "zk_error \<Rightarrow> zk_error" where
  "Cause (Annotated e msg) = Cause e"
| "Cause e = e"

type_synonym chan_ptr = nat

datatype zk_flag = FlagEphemeral | FlagSequence
datatype zk_perm = PermAll
datatype zk_acl = WorldACL zk_perm
datatype zk_stat = Stat int

datatype zk_call =
    CreateCall string string "zk_flag set" zk_acl
  | DeleteCall string int
  | ChildrenCall string
  | ChildrenWCall string
  | ExistsWCall string

datatype effect =
    StoreCall zk_call "zk_error option"
  | Send chan_ptr
  | ConnClose
  | ExitClose

subsection \<open>The client\<close>

text \<open>
  \<open>name\<close> is \<^verbatim>\<open>z.name\<close>. \<open>conn\<close> is \<^verbatim>\<open>z.conn\<close>: \<open>None\<close> is the nil pointer,
  \<open>Some s\<close> a live session whose store is in state \<open>s\<close>. \<open>exit_closed\<close> is the state
  of the channel \<^verbatim>\<open>z.exit\<close> (nothing is ever sent on it, it is only closed).
  \<open>eventRegistry\<close> is the Go map from path to slice of channel pointers; a slice is
  given by its elements. The addresses, the timeout, the mutex and the wait group
  play no part in what a single call computes; the last two appear where calls
  interleave.
\<close>

record 's zookeeperClient =
  name :: string
  conn :: "'s option"
  exit_closed :: bool
  eventRegistry :: "string \<rightharpoonup> chan_ptr list"
  log :: "effect list"

text \<open>\<^verbatim>\<open>newZookeeperClient\<close> after a successful \<^verbatim>\<open>zk.Connect\<close>.\<close>

definition newZookeeperClient :: "string \<Rightarrow> 's \<Rightarrow> 's zookeeperClient" where
  "newZookeeperClient nm s =
     \<lparr> name = nm, conn = Some s, exit_closed = False, eventRegistry = Map.empty, log = [] \<rparr>"

subsection \<open>stop\<close>

text \<open>\<^verbatim>\<open>close(z.exit)\<close>: closing a closed channel panics.\<close>

definition close_exit :: "'s zookeeperClient \<Rightarrow> panic + 's zookeeperClient" where
  "close_exit z =
     (if exit_closed z then Inl CloseOfClosedChannel
      else Inr (z\<lparr> exit_closed := True, log := log z @ [ExitClose] \<rparr>))"

text \<open>\<^verbatim>\<open>stop\<close>: the select takes the receive branch exactly when \<^verbatim>\<open>z.exit\<close> is
  closed (nothing is sent on it); otherwise the default branch closes it.\<close>

definition stop :: "'s zookeeperClient \<Rightarrow> panic + (bool \<times> 's zookeeperClient)" where
  "stop z =
     (if exit_closed z then Inr (True, z)
      else (case close_exit z of
              Inl p \<Rightarrow> Inl p
            | Inr z' \<Rightarrow> Inr (False, z')))"

text \<open>\<open>n\<close> calls of \<^verbatim>\<open>stop\<close> one after the other, with the values they return.\<close>

fun stop_calls :: "nat \<Rightarrow> 's zookeeperClient \<Rightarrow> panic + (bool list \<times> 's zookeeperClient)" where
  "stop_calls 0 z = Inr ([], z)"
| "stop_calls (Suc n) z =
     (case stop z of
        Inl p \<Rightarrow> Inl p
      | Inr (b, z') \<Rightarrow>
          (case stop_calls n z' of
             Inl p \<Rightarrow> Inl p
           | Inr (bs, z'') \<Rightarrow> Inr (b # bs, z'')))"

subsection \<open>The watch registry\<close>

text \<open>\<^verbatim>\<open>z.eventRegistry[p]\<close> read as a value: a missing key gives the nil slice.\<close>

definition handles_of :: "'s zookeeperClient \<Rightarrow> string \<Rightarrow> chan_ptr list" where
  "handles_of z p = (case eventRegistry z p of None \<Rightarrow> [] | Some a \<Rightarrow> a)"

text \<open>\<^verbatim>\<open>registerEvent\<close>: \<open>event = None\<close> is the nil pointer.\<close>

definition registerEvent ::
  "string \<Rightarrow> chan_ptr option \<Rightarrow> 's zookeeperClient \<Rightarrow> 's zookeeperClient" where
  "registerEvent zkPath event z =
     (case event of
        None \<Rightarrow> z
      | Some e \<Rightarrow>
          if zkPath = [] then z
          else
            let a = handles_of z zkPath
            in z\<lparr> eventRegistry := (eventRegistry z)(zkPath \<mapsto> a @ [e]) \<rparr>)"

text \<open>
  The inner loop of \<^verbatim>\<open>unregisterEvent\<close>,
  \<^verbatim>\<open>for i, e := range a { if e == event { arr := a; a = append(arr[:i], arr[i+1:]...) } }\<close>.
  The range expression is evaluated once, so \<open>i\<close> runs up to the length \<open>n\<close> the slice
  had at the start and \<open>e\<close> is read from the backing array \<open>buf\<close> at each step. The
  variable \<open>a\<close> is the slice of the first \<open>alen\<close> cells of \<open>buf\<close>. \<^verbatim>\<open>arr[i+1:]\<close> panics
  unless \<open>i + 1 \<le> len(arr)\<close>; \<^verbatim>\<open>arr[:i]\<close> is within the capacity. The append fits in the
  capacity, so it moves the cells \<open>i+1 ..< alen\<close> one to the left in place and there is
  no break after it. Cells of the backing array beyond \<open>n\<close> are never read.
\<close>

definition shift_left :: "'a list \<Rightarrow> nat \<Rightarrow> nat \<Rightarrow> 'a list" where
  "shift_left buf i alen =
     take i buf @ take (alen - Suc i) (drop (Suc i) buf) @ drop (alen - 1) buf"

function unregister_loop ::
  "chan_ptr option \<Rightarrow> nat \<Rightarrow> nat \<Rightarrow> chan_ptr list \<Rightarrow> nat \<Rightarrow> panic + (chan_ptr list \<times> nat)" where
  "unregister_loop event n i buf alen =
     (if i < n then
        (if Some (buf ! i) = event then
           (if Suc i \<le> alen
            then unregister_loop event n (Suc i) (shift_left buf i alen) (alen - 1)
            else Inl SliceBoundsOutOfRange)
         else unregister_loop event n (Suc i) buf alen)
      else Inr (buf, alen))"
  by pat_completeness auto
termination
  by (relation "measure (\<lambda>(event, n, i, buf, alen). n - i)") auto

declare unregister_loop.simps [simp del]

definition unregisterEvent ::
  "string \<Rightarrow> chan_ptr option \<Rightarrow> 's zookeeperClient \<Rightarrow> panic + 's zookeeperClient" where
  "unregisterEvent zkPath event z =
     (if zkPath = [] then Inr z
      else
        (case eventRegistry z zkPath of
           None \<Rightarrow> Inr z
         | Some a \<Rightarrow>
             (case unregister_loop event (length a) 0 a (length a) of
                Inl p \<Rightarrow> Inl p
              | Inr (buf, alen) \<Rightarrow>
                  if alen = 0
                  then Inr (z\<lparr> eventRegistry := (eventRegistry z)(zkPath := None) \<rparr>)
                  else Inr (z\<lparr> eventRegistry := (eventRegistry z)(zkPath \<mapsto> take alen buf) \<rparr>))))"

subsection \<open>The event loop\<close>

text \<open>
  The state and event codes are constants of the \<^verbatim>\<open>zk\<close> package, which is not part
  of the sources at hand; they are parameters of the model. The switch of
  \<^verbatim>\<open>handleZkEvent\<close> uses them as case labels after conversion to \<^verbatim>\<open>int\<close>, and the
  Go compiler rejects a switch with two equal constant labels, so the six labels
  are pairwise different in every program that compiles.
\<close>

record zk_consts =
  StateDisconnected :: int
  StateConnecting :: int
  StateConnected :: int
  StateHasSession :: int
  EventNodeDataChanged :: int
  EventNodeChildrenChanged :: int

definition labels_distinct :: "zk_consts \<Rightarrow> bool" where
  "labels_distinct K =
     distinct [StateDisconnected K, EventNodeDataChanged K, EventNodeChildrenChanged K,
               StateConnecting K, StateConnected K, StateHasSession K]"

text \<open>The values these constants have in \<^verbatim>\<open>github.com/samuel/go-zookeeper/zk\<close>,
  used where a concrete instance is needed.\<close>

definition go_zookeeper :: zk_consts where
  "go_zookeeper =
     \<lparr> StateDisconnected = 0, StateConnecting = 1, StateConnected = 100,
       StateHasSession = 101, EventNodeDataChanged = 3, EventNodeChildrenChanged = 4 \<rparr>"

text \<open>Of a \<^verbatim>\<open>zk.Event\<close> the loop uses the state and the path; type, server and error
  are only logged.\<close>

record zk_Event =
  ev_State :: int
  ev_Path :: string

text \<open>\<^verbatim>\<open>strings.HasPrefix(s, prefix)\<close> is
  \<^verbatim>\<open>len(s) >= len(prefix) && s[0:len(prefix)] == prefix\<close>.\<close>

definition HasPrefix :: "string \<Rightarrow> string \<Rightarrow> bool" where
  "HasPrefix s pre = (length s \<ge> length pre \<and> take (length pre) s = pre)"

text \<open>\<^verbatim>\<open>for _, e := range a { *e <- struct{}{} }\<close>: one send per handle, in the order
  of the slice. A send is recorded when it is made; whether a receiver takes it is
  outside the model.\<close>

definition notify :: "chan_ptr list \<Rightarrow> 's zookeeperClient \<Rightarrow> 's zookeeperClient" where
  "notify a z = z\<lparr> log := log z @ map Send a \<rparr>"

text \<open>
  \<^verbatim>\<open>for p, a := range z.eventRegistry { if strings.HasPrefix(p, event.Path) { ... } }\<close>.
  Go leaves the iteration order of a map open: \<open>ks\<close> is the order in which this
  run of the loop visits the keys.
\<close>

fun notify_matching :: "string \<Rightarrow> string list \<Rightarrow> 's zookeeperClient \<Rightarrow> 's zookeeperClient" where
  "notify_matching evPath [] z = z"
| "notify_matching evPath (p # ps) z =
     (let a = handles_of z p
      in notify_matching evPath ps (if HasPrefix p evPath then notify a z else z))"

datatype loop_ctl = NextIteration | BreakLoop

text \<open>
  The body of the loop of \<^verbatim>\<open>handleZkEvent\<close> for one received event. \<open>state\<close> is the
  local variable of that name (initially 0); the result says whether the loop goes
  on, and gives the new value of \<open>state\<close> and the client. The \<^verbatim>\<open>continue\<close> of the
  third case skips the assignment \<^verbatim>\<open>state = (int)(event.State)\<close>.
\<close>

definition handleZkEvent_body ::
  "zk_consts \<Rightarrow> string list \<Rightarrow> zk_Event \<Rightarrow> int \<Rightarrow> 's zookeeperClient
     \<Rightarrow> panic + (loop_ctl \<times> int \<times> 's zookeeperClient)" where
  "handleZkEvent_body K ks event state z =
     (if ev_State event = StateDisconnected K then
        (case stop z of
           Inl p \<Rightarrow> Inl p
         | Inr (b, z1) \<Rightarrow>
             Inr (BreakLoop, state,
                  (case conn z1 of
                     None \<Rightarrow> z1
                   | Some s \<Rightarrow> z1\<lparr> conn := None, log := log z1 @ [ConnClose] \<rparr>)))
      else if ev_State event = EventNodeDataChanged K
              \<or> ev_State event = EventNodeChildrenChanged K then
        Inr (NextIteration, ev_State event, notify_matching (ev_Path event) ks z)
      else if ev_State event = StateConnecting K \<or> ev_State event = StateConnected K
              \<or> ev_State event = StateHasSession K then
        (if state \<noteq> StateConnecting K \<or> state \<noteq> StateDisconnected K then
           Inr (NextIteration, state, z)
         else
           Inr (NextIteration, ev_State event,
                (case eventRegistry z (ev_Path event) of
                   None \<Rightarrow> z
                 | Some a \<Rightarrow> if 0 < length a then notify a z else z)))
      else Inr (NextIteration, ev_State event, z))"

subsection \<open>Library functions on strings and paths\<close>

text \<open>\<^verbatim>\<open>strings.Split(s, sep)\<close> for a separator of one character: the pieces between
  the separators, always at least one.\<close>

fun strings_Split :: "string \<Rightarrow> char \<Rightarrow> string list" where
  "strings_Split [] c = [[]]"
| "strings_Split (x # xs) c =
     (if x = c then [] # strings_Split xs c
      else (x # hd (strings_Split xs c)) # tl (strings_Split xs c))"

text \<open>\<^verbatim>\<open>strings.Join(elems, sep)\<close>.\<close>

fun strings_Join :: "string list \<Rightarrow> string \<Rightarrow> string" where
  "strings_Join [] sep = []"
| "strings_Join [e] sep = e"
| "strings_Join (e # es) sep = e @ sep @ strings_Join es sep"

text \<open>
  \<^verbatim>\<open>path.Clean\<close>, by the rules of its documentation, on the elements between the
  slashes: empty elements and \<^verbatim>\<open>.\<close> are dropped; \<^verbatim>\<open>..\<close> removes the element before
  it when that is not itself \<^verbatim>\<open>..\<close>, is dropped at the root of a rooted path, and is
  kept otherwise; the result of an empty path is \<^verbatim>\<open>.\<close>. \<open>out\<close> holds the elements
  kept so far, the last one first.
\<close>

fun clean_elems :: "bool \<Rightarrow> string list \<Rightarrow> string list \<Rightarrow> string list" where
  "clean_elems rooted [] out = rev out"
| "clean_elems rooted (e # es) out =
     (if e = [] \<or> e = ''.'' then clean_elems rooted es out
      else if e = ''..'' then
        (case out of
           [] \<Rightarrow> clean_elems rooted es (if rooted then [] else [''..''])
         | t # ts \<Rightarrow>
             if t = ''..'' then clean_elems rooted es (''..'' # out)
             else clean_elems rooted es ts)
      else clean_elems rooted es (e # out))"

definition path_Clean :: "string \<Rightarrow> string" where
  "path_Clean p =
     (if p = [] then ''.''
      else
        let rooted = (hd p = CHR ''/'');
            res = (if rooted then ''/'' else []) @
                  strings_Join (clean_elems rooted (strings_Split p CHR ''/'') []) ''/''
        in if res = [] then ''.'' else res)"

text \<open>\<^verbatim>\<open>path.Join\<close>: the elements from the first non-empty one on are joined with
  slashes and cleaned; the result is empty when all elements are.\<close>

definition path_Join :: "string list \<Rightarrow> string" where
  "path_Join elems =
     (case dropWhile (\<lambda>e. e = []) elems of
        [] \<Rightarrow> []
      | es \<Rightarrow> path_Clean (strings_Join es ''/''))"

subsection \<open>Node operations\<close>

text \<open>
  The session \<^verbatim>\<open>*zk.Conn\<close> and the store behind it are outside the sources at hand:
  the store is a parameter \<open>L\<close> that answers a call in a store state with a reply and
  the next store state. A reply has the fields the methods of \<^verbatim>\<open>zk.Conn\<close> return;
  a method reads the ones it has.
\<close>

record zk_reply =
  r_path :: string
  r_children :: "string list"
  r_stat :: "zk_stat option"
  r_exist :: bool
  r_watch :: "nat option"
  r_err :: "zk_error option"

type_synonym 's zk_store = "zk_call \<Rightarrow> 's \<Rightarrow> zk_reply \<times> 's"

text \<open>A method call on the live session: the call and the error it returned are
  logged.\<close>

definition store_call ::
  "'s zk_store \<Rightarrow> zk_call \<Rightarrow> 's \<Rightarrow> 's zookeeperClient \<Rightarrow> zk_reply \<times> 's zookeeperClient" where
  "store_call L c s z =
     (let (r, s') = L c s
      in (r, z\<lparr> conn := Some s', log := log z @ [StoreCall c (r_err r)] \<rparr>))"

text \<open>The loop of \<^verbatim>\<open>Create\<close> over the elements still to do; \<open>tmpPath\<close> is the local
  variable of that name.\<close>

fun Create_loop ::
  "'s zk_store \<Rightarrow> string \<Rightarrow> string list \<Rightarrow> string \<Rightarrow> 's zookeeperClient
     \<Rightarrow> zk_error option \<times> 's zookeeperClient" where
  "Create_loop L basePath [] tmpPath z = (None, z)"
| "Create_loop L basePath (str # rest) tmpPath z =
     (let tmpPath' = path_Join [tmpPath, ''/'', str];
          (err, z') =
            (case conn z of
               None \<Rightarrow> (Some ZK_CLIENT_CONN_NIL_ERR, z)
             | Some s \<Rightarrow>
                 (let (r, z1) = store_call L (CreateCall tmpPath' [] {} (WorldACL PermAll)) s z
                  in (r_err r, z1)))
      in case err of
           None \<Rightarrow> Create_loop L basePath rest tmpPath' z'
         | Some e \<Rightarrow>
             if e = ErrNodeExists then Create_loop L basePath rest tmpPath' z'
             else (Annotatef (Some e) (''zk.Create(path:'' @ basePath @ '')''), z'))"

definition Create ::
  "'s zk_store \<Rightarrow> string \<Rightarrow> 's zookeeperClient \<Rightarrow> zk_error option \<times> 's zookeeperClient" where
  "Create L basePath z =
     Create_loop L basePath (drop 1 (strings_Split basePath CHR ''/'')) [] z"

definition Delete ::
  "'s zk_store \<Rightarrow> string \<Rightarrow> 's zookeeperClient \<Rightarrow> zk_error option \<times> 's zookeeperClient" where
  "Delete L basePath z =
     (let (err, z') =
            (case conn z of
               None \<Rightarrow> (Some ZK_CLIENT_CONN_NIL_ERR, z)
             | Some s \<Rightarrow>
                 (let (r, z1) = store_call L (DeleteCall basePath (- 1)) s z
                  in (r_err r, z1)))
      in (Annotatef err (''Delete(basePath:'' @ basePath @ '')''), z'))"

definition RegisterTemp ::
  "'s zk_store \<Rightarrow> string \<Rightarrow> string \<Rightarrow> 's zookeeperClient
     \<Rightarrow> (string \<times> zk_error option) \<times> 's zookeeperClient" where
  "RegisterTemp L basePath node z =
     (let zkPath = path_Join [basePath] @ ''/'' @ node;
          (tmpPath, err, z') =
            (case conn z of
               None \<Rightarrow> ([], Some ZK_CLIENT_CONN_NIL_ERR, z)
             | Some s \<Rightarrow>
                 (let (r, z1) =
                        store_call L (CreateCall zkPath [] {FlagEphemeral} (WorldACL PermAll)) s z
                  in (r_path r, r_err r, z1)))
      in if err \<noteq> None
         then (([], Annotatef err (''zk.Create(path:'' @ basePath @ '', zk.FlagEphemeral)'')), z')
         else ((tmpPath, None), z'))"

definition RegisterTempSeq ::
  "'s zk_store \<Rightarrow> string \<Rightarrow> string \<Rightarrow> 's zookeeperClient
     \<Rightarrow> (string \<times> zk_error option) \<times> 's zookeeperClient" where
  "RegisterTempSeq L basePath data z =
     (let (tmpPath, err, z') =
            (case conn z of
               None \<Rightarrow> ([], Some ZK_CLIENT_CONN_NIL_ERR, z)
             | Some s \<Rightarrow>
                 (let (r, z1) =
                        store_call L
                          (CreateCall (path_Join [basePath] @ ''/'') data
                             ({FlagEphemeral} \<union> {FlagSequence}) (WorldACL PermAll)) s z
                  in (r_path r, r_err r, z1)))
      in if err \<noteq> None
         then (([], Annotatef err
                  (''zk.Create(path:'' @ basePath @ '', zk.FlagEphemeral|zk.FlagSequence)'')), z')
         else ((tmpPath, None), z'))"

definition getChildrenW ::
  "'s zk_store \<Rightarrow> string \<Rightarrow> 's zookeeperClient
     \<Rightarrow> (string list \<times> nat option \<times> zk_error option) \<times> 's zookeeperClient" where
  "getChildrenW L path z =
     (let (children, stat, watch, err, z') =
            (case conn z of
               None \<Rightarrow> ([], None, None, Some ZK_CLIENT_CONN_NIL_ERR, z)
             | Some s \<Rightarrow>
                 (let (r, z1) = store_call L (ChildrenWCall path) s z
                  in (r_children r, r_stat r, r_watch r, r_err r, z1)))
      in case err of
           Some e \<Rightarrow>
             if e = ErrNoNode
             then (([], None, Some (Errorf (''path{'' @ path @ ''} has none children''))), z')
             else (([], None, Annotatef err (''zk.ChildrenW(path:'' @ path @ '')'')), z')
         | None \<Rightarrow>
             if stat = None
             then (([], None, Some (Errorf (''path{'' @ path @ ''} has none children''))), z')
             else if length children = 0
             then (([], None, Some (Errorf (''path{'' @ path @ ''} has none children''))), z')
             else ((children, watch, None), z'))"

definition getChildren ::
  "'s zk_store \<Rightarrow> string \<Rightarrow> 's zookeeperClient
     \<Rightarrow> (string list \<times> zk_error option) \<times> 's zookeeperClient" where
  "getChildren L path z =
     (let (children, stat, err, z') =
            (case conn z of
               None \<Rightarrow> ([], None, Some ZK_CLIENT_CONN_NIL_ERR, z)
             | Some s \<Rightarrow>
                 (let (r, z1) = store_call L (ChildrenCall path) s z
                  in (r_children r, r_stat r, r_err r, z1)))
      in case err of
           Some e \<Rightarrow>
             if e = ErrNoNode
             then (([], Some (Errorf (''path{'' @ path @ ''} has none children''))), z')
             else (([], Annotatef err (''zk.Children(path:'' @ path @ '')'')), z')
         | None \<Rightarrow>
             if stat = None
             then (([], Some (Errorf (''path{'' @ path @ ''} has none children''))), z')
             else if length children = 0
             then (([], Some (Errorf (''path{'' @ path @ ''} has none children''))), z')
             else ((children, None), z'))"

definition existW ::
  "'s zk_store \<Rightarrow> string \<Rightarrow> 's zookeeperClient
     \<Rightarrow> (nat option \<times> zk_error option) \<times> 's zookeeperClient" where
  "existW L zkPath z =
     (let (exist, watch, err, z') =
            (case conn z of
               None \<Rightarrow> (False, None, Some ZK_CLIENT_CONN_NIL_ERR, z)
             | Some s \<Rightarrow>
                 (let (r, z1) = store_call L (ExistsWCall zkPath) s z
                  in (r_exist r, r_watch r, r_err r, z1)))
      in if err \<noteq> None
         then ((None, Annotatef err (''zk.ExistsW(path:'' @ zkPath @ '')'')), z')
         else if \<not> exist
         then ((None, Some (Errorf (''zkClient{'' @ name z @ ''} App zk path{'' @ zkPath
                                     @ ''} does not exist.''))), z')
         else ((watch, None), z'))"

subsection \<open>Close and the background task, step by step\<close>

text \<open>
  \<^verbatim>\<open>Close\<close> can run while the background task handles a Disconnected event, and
  several callers can run \<^verbatim>\<open>Close\<close> at once. To speak about every interleaving the
  two pieces of code are cut into their accesses to shared state; a thread is at
  one of these program points:

  \<^item> \<open>Idle\<close>: a caller that has not called \<^verbatim>\<open>Close\<close> yet;
  \<^item> \<open>Select\<close>: the background task at the select of its loop;
  \<^item> \<open>StopSelect\<close>, \<open>StopClose\<close>: in \<^verbatim>\<open>stop\<close>, before its select and before
    \<^verbatim>\<open>close(z.exit)\<close> on the default branch;
  \<^item> \<open>Wait\<close>: at \<^verbatim>\<open>z.wait.Wait()\<close> (\<^verbatim>\<open>Close\<close> only);
  \<^item> \<open>Lock\<close>, \<open>Check\<close>, \<open>Release\<close>, \<open>SetNil\<close>, \<open>Unlock\<close>: at \<^verbatim>\<open>z.Lock()\<close>, at the
    test \<^verbatim>\<open>z.conn != nil\<close>, at \<^verbatim>\<open>z.conn.Close()\<close>, at \<^verbatim>\<open>z.conn = nil\<close> and at
    \<^verbatim>\<open>z.Unlock()\<close>;
  \<^item> \<open>Defer\<close>: the deferred \<^verbatim>\<open>z.wait.Done()\<close> of the background task;
  \<^item> \<open>Finished\<close>: returned; \<open>Panicked\<close>: stopped by a panic, which for the
    background task comes after its deferred \<^verbatim>\<open>Done\<close> (\<open>PanicDefer\<close>).

  An unrecovered panic ends the whole process; here the other threads may go on,
  which only adds executions.
\<close>

datatype tid = Bg | Closer nat

datatype pc =
    Idle | Select | StopSelect | StopClose | Wait | Lock | Check | Release | SetNil
  | Unlock | Defer | PanicDefer panic | Finished | Panicked panic

text \<open>The shared state: the client, the holder of its mutex, the counter of the
  wait group, the local variable \<open>state\<close> of the background task, and where each
  thread is.\<close>

record 's sys =
  client :: "'s zookeeperClient"
  mutex :: "tid option"
  wg :: nat
  bg_state :: int
  pcs :: "tid \<Rightarrow> pc"


text \<open>A schedule is a list of actions: a thread makes its next step, or the
  background task receives an event at its select (with the order in which a range
  over the registry would visit the keys).\<close>

datatype action = Step tid | Recv zk_Event "string list"

definition goto :: "tid \<Rightarrow> pc \<Rightarrow> 's sys \<Rightarrow> 's sys" where
  "goto t p \<sigma> = \<sigma>\<lparr> pcs := (pcs \<sigma>)(t := p) \<rparr>"

text \<open>After \<^verbatim>\<open>z.stop()\<close> the background task locks, \<^verbatim>\<open>Close\<close> waits first.\<close>

definition after_stop :: "tid \<Rightarrow> pc" where
  "after_stop t = (case t of Bg \<Rightarrow> Lock | Closer n \<Rightarrow> Wait)"

text \<open>
  One step of thread \<open>t\<close>. A step that has to wait (the select with \<^verbatim>\<open>z.exit\<close> open
  and no event, \<^verbatim>\<open>Wait\<close> with a positive counter, \<^verbatim>\<open>Lock\<close> with the mutex taken)
  leaves the state as it is. \<^verbatim>\<open>z.conn.Close()\<close> on a nil pointer would be a panic.
\<close>

definition step_thread :: "tid \<Rightarrow> 's sys \<Rightarrow> 's sys" where
  "step_thread t \<sigma> =
     (case pcs \<sigma> t of
        Idle \<Rightarrow> goto t StopSelect \<sigma>
      | Select \<Rightarrow> if exit_closed (client \<sigma>) then goto t Defer \<sigma> else \<sigma>
      | StopSelect \<Rightarrow>
          if exit_closed (client \<sigma>) then goto t (after_stop t) \<sigma> else goto t StopClose \<sigma>
      | StopClose \<Rightarrow>
          (case close_exit (client \<sigma>) of
             Inl p \<Rightarrow> goto t (case t of Bg \<Rightarrow> PanicDefer p | Closer n \<Rightarrow> Panicked p) \<sigma>
           | Inr z' \<Rightarrow> goto t (after_stop t) (\<sigma>\<lparr> client := z' \<rparr>))
      | Wait \<Rightarrow> if wg \<sigma> = 0 then goto t Lock \<sigma> else \<sigma>
      | Lock \<Rightarrow> if mutex \<sigma> = None then goto t Check (\<sigma>\<lparr> mutex := Some t \<rparr>) else \<sigma>
      | Check \<Rightarrow> if conn (client \<sigma>) \<noteq> None then goto t Release \<sigma> else goto t Unlock \<sigma>
      | Release \<Rightarrow>
          if conn (client \<sigma>) = None
          then goto t (case t of Bg \<Rightarrow> PanicDefer NilDereference
                       | Closer n \<Rightarrow> Panicked NilDereference) \<sigma>
          else goto t SetNil
                 (\<sigma>\<lparr> client := (client \<sigma>)\<lparr> log := log (client \<sigma>) @ [ConnClose] \<rparr> \<rparr>)
      | SetNil \<Rightarrow> goto t Unlock (\<sigma>\<lparr> client := (client \<sigma>)\<lparr> conn := None \<rparr> \<rparr>)
      | Unlock \<Rightarrow> goto t (case t of Bg \<Rightarrow> Defer | Closer n \<Rightarrow> Finished) (\<sigma>\<lparr> mutex := None \<rparr>)
      | Defer \<Rightarrow> goto t Finished (\<sigma>\<lparr> wg := wg \<sigma> - 1 \<rparr>)
      | PanicDefer p \<Rightarrow> goto t (Panicked p) (\<sigma>\<lparr> wg := wg \<sigma> - 1 \<rparr>)
      | Finished \<Rightarrow> \<sigma>
      | Panicked p \<Rightarrow> \<sigma>)"

text \<open>
  The background task receives an event at its select. A Disconnected event starts
  \<^verbatim>\<open>z.stop()\<close>, whose steps are those of \<open>step_thread\<close>. Any other event is handled
  by \<open>handleZkEvent_body\<close> in one step; the node-changed case takes the mutex for its sends,
  so it waits while another thread holds it.
\<close>

definition recv :: "zk_consts \<Rightarrow> zk_Event \<Rightarrow> string list \<Rightarrow> 's sys \<Rightarrow> 's sys" where
  "recv K ev ks \<sigma> =
     (if pcs \<sigma> Bg \<noteq> Select then \<sigma>
      else if ev_State ev = StateDisconnected K then goto Bg StopSelect \<sigma>
      else if (ev_State ev = EventNodeDataChanged K \<or> ev_State ev = EventNodeChildrenChanged K)
              \<and> mutex \<sigma> \<noteq> None then \<sigma>
      else
        (case handleZkEvent_body K ks ev (bg_state \<sigma>) (client \<sigma>) of
           Inl p \<Rightarrow> goto Bg (PanicDefer p) \<sigma>
         | Inr (c, st', z') \<Rightarrow>
             goto Bg (case c of NextIteration \<Rightarrow> Select | BreakLoop \<Rightarrow> Defer)
               (\<sigma>\<lparr> client := z', bg_state := st' \<rparr>)))"

definition fire :: "zk_consts \<Rightarrow> action \<Rightarrow> 's sys \<Rightarrow> 's sys" where
  "fire K a \<sigma> = (case a of Step t \<Rightarrow> step_thread t \<sigma> | Recv ev ks \<Rightarrow> recv K ev ks \<sigma>)"

text \<open>The state after a schedule.\<close>

definition run :: "zk_consts \<Rightarrow> action list \<Rightarrow> 's sys \<Rightarrow> 's sys" where
  "run K as \<sigma> = fold (fire K) as \<sigma>"

text \<open>The background task alone: it receives an event and then runs on.\<close>

definition bg_alone :: "zk_Event \<Rightarrow> string list \<Rightarrow> action list" where
  "bg_alone ev ks = Recv ev ks # replicate 9 (Step Bg)"


definition in_critical :: "pc \<Rightarrow> bool" where
  "in_critical p = (p = Check \<or> p = Release \<or> p = SetNil \<or> p = Unlock)"

definition past_stop :: "pc \<Rightarrow> bool" where
  "past_stop p = (p = Wait \<or> p = Lock \<or> in_critical p \<or> p = Finished)"

definition past_wait :: "pc \<Rightarrow> bool" where
  "past_wait p = (p = Lock \<or> in_critical p \<or> p = Finished)"

definition bg_gone :: "pc \<Rightarrow> bool" where
  "bg_gone p = (case p of Finished \<Rightarrow> True | Panicked x \<Rightarrow> True | _ \<Rightarrow> False)"


definition closer_pc :: "pc \<Rightarrow> bool" where
  "closer_pc p = (case p of Select \<Rightarrow> False | Defer \<Rightarrow> False | PanicDefer x \<Rightarrow> False | _ \<Rightarrow> True)"

definition bg_pc :: "pc \<Rightarrow> bool" where
  "bg_pc p = (p \<noteq> Idle \<and> p \<noteq> Wait)"




subsection \<open>Notions used in the statements\<close>


definition registry_nonempty :: "'s zookeeperClient \<Rightarrow> bool" where
  "registry_nonempty z = (\<forall>p a. eventRegistry z p = Some a \<longrightarrow> a \<noteq> [])"

text \<open>The clients that the operations of the file produce from a new one (a call
  that panics produces none).\<close>

inductive reachable :: "zk_consts \<Rightarrow> 's zk_store \<Rightarrow> 's zookeeperClient \<Rightarrow> bool"
  for K :: zk_consts and L :: "'s zk_store" where
  r_new: "reachable K L (newZookeeperClient nm s)"
| r_registerEvent: "reachable K L z \<Longrightarrow> reachable K L (registerEvent p e z)"
| r_unregisterEvent: "reachable K L z \<Longrightarrow> unregisterEvent p e z = Inr z' \<Longrightarrow> reachable K L z'"
| r_handleZkEvent: "reachable K L z \<Longrightarrow> handleZkEvent_body K ks ev st z = Inr (c, st', z') \<Longrightarrow> reachable K L z'"
| r_stop: "reachable K L z \<Longrightarrow> stop z = Inr (b, z') \<Longrightarrow> reachable K L z'"
| r_Create: "reachable K L z \<Longrightarrow> Create L p z = (err, z') \<Longrightarrow> reachable K L z'"
| r_Delete: "reachable K L z \<Longrightarrow> Delete L p z = (err, z') \<Longrightarrow> reachable K L z'"
| r_RegisterTemp: "reachable K L z \<Longrightarrow> RegisterTemp L p nd z = (res, z') \<Longrightarrow> reachable K L z'"
| r_RegisterTempSeq: "reachable K L z \<Longrightarrow> RegisterTempSeq L p d z = (res, z') \<Longrightarrow> reachable K L z'"
| r_getChildrenW: "reachable K L z \<Longrightarrow> getChildrenW L p z = (resw, z') \<Longrightarrow> reachable K L z'"
| r_getChildren: "reachable K L z \<Longrightarrow> getChildren L p z = (res, z') \<Longrightarrow> reachable K L z'"
| r_existW: "reachable K L z \<Longrightarrow> existW L p z = (rese, z') \<Longrightarrow> reachable K L z'"

text \<open>The sends of the node-changed case when the range visits the keys in the
  order \<open>ks\<close>.\<close>

definition sends_for :: "'s zookeeperClient \<Rightarrow> string \<Rightarrow> string list \<Rightarrow> effect list" where
  "sends_for z evPath ks =
     concat (map (\<lambda>p. if HasPrefix p evPath then map Send (handles_of z p) else []) ks)"







definition reply_err :: "zk_error \<Rightarrow> zk_reply" where
  "reply_err e = \<lparr> r_path = [], r_children = [], r_stat = None, r_exist = False,
                   r_watch = None, r_err = Some e \<rparr>"

definition reply_path :: "string \<Rightarrow> zk_reply" where
  "reply_path p = \<lparr> r_path = p, r_children = [], r_stat = None, r_exist = False,
                    r_watch = None, r_err = None \<rparr>"



text \<open>The three replies to a children call that the client reports alike.\<close>

definition no_children :: "zk_reply \<Rightarrow> bool" where
  "no_children r =
     (r_err r = Some ErrNoNode \<or> (r_err r = None \<and> (r_stat r = None \<or> r_children r = [])))"

definition none_children_err :: "string \<Rightarrow> zk_error" where
  "none_children_err path = Errorf (''path{'' @ path @ ''} has none children'')"

subsection \<open>Concrete clients, stores and schedules\<close>

text \<open>Two handles on \<^verbatim>\<open>/a\<close>; the same with a third on \<^verbatim>\<open>/a/b\<close>; one handle
  registered twice on \<^verbatim>\<open>/a\<close>, alone and followed by another.\<close>

definition two_on_a :: "nat zookeeperClient" where
  "two_on_a =
     registerEvent ''/a'' (Some 2) (registerEvent ''/a'' (Some 1) (newZookeeperClient ''c'' 0))"

definition fan_out :: "nat zookeeperClient" where
  "fan_out = registerEvent ''/a/b'' (Some 3) two_on_a"



text \<open>A client whose connection is gone, and one on the empty node store.\<close>

definition closed_client :: "nat zookeeperClient" where
  "closed_client = (newZookeeperClient ''c'' 0)\<lparr> conn := None \<rparr>"


text \<open>A store that counts its calls and fails the one made in state 1, and a store
  whose answer to a children call depends on its state.\<close>

definition flaky_store :: "nat zk_store" where
  "flaky_store c s =
     (if s = 1 then reply_err (ErrStore ''boom'') else reply_path [], s + 1)"

definition children_store :: "nat zk_store" where
  "children_store c s =
     (if s = 0 then reply_err ErrNoNode
      else if s = 1 then reply_path []
      else if s = 2 then (reply_path [])\<lparr> r_stat := Some (Stat 0) \<rparr>
      else (reply_path [])\<lparr> r_stat := Some (Stat 0), r_children := [''x''] \<rparr>, s)"




section \<open>Properties\<close>

subsection \<open>stop\<close>

lemma stop_closed: "exit_closed z \<Longrightarrow> stop z = Inr (True, z)"
  by (simp add: stop_def)

lemma stop_calls_closed: "exit_closed z \<Longrightarrow> stop_calls n z = Inr (replicate n True, z)"
  by (induction n) (simp_all add: stop_closed)

text \<open>
  Claim C4 (\<^verbatim>\<open>stop\<close> is idempotent): of any number of calls of \<^verbatim>\<open>stop\<close> one after
  the other on a client whose exit channel is open, none panics, the first returns
  false and closes the channel, all later ones return true, and the channel has
  been closed exactly once.
\<close>

theorem stop_idempotent:
  "\<not> exit_closed z \<Longrightarrow>
     stop_calls (Suc n) z =
       Inr (False # replicate n True, z\<lparr> exit_closed := True, log := log z @ [ExitClose] \<rparr>)"
  by (simp add: stop_def close_exit_def stop_calls_closed)

theorem stop_idempotent_witness:
  "\<not> exit_closed (newZookeeperClient ''c'' (0::nat)) \<and>
   stop_calls 3 (newZookeeperClient ''c'' (0::nat)) =
     Inr ([False, True, True],
          \<lparr> name = ''c'', conn = Some 0, exit_closed = True, eventRegistry = Map.empty,
            log = [ExitClose] \<rparr>)"
  using stop_idempotent [of "newZookeeperClient ''c'' (0::nat)" "Suc (Suc 0)"]
  by (simp add: newZookeeperClient_def numeral_3_eq_3)

subsection \<open>The loop of unregisterEvent\<close>

lemma length_shift_left:
  "Suc i \<le> alen \<Longrightarrow> alen \<le> length buf \<Longrightarrow> length (shift_left buf i alen) = length buf"
  by (simp add: shift_left_def)


lemma unregister_loop_bounds:
  "unregister_loop event n i buf alen = Inr (buf', alen') \<Longrightarrow> alen \<le> length buf \<Longrightarrow>
     alen' \<le> length buf' \<and> length buf' = length buf \<and> alen' \<le> alen"
proof (induction event n i buf alen rule: unregister_loop.induct)
  case (1 event n i buf alen)
  show ?case
  proof (cases "i < n")
    case False
    then show ?thesis using "1.prems" by (simp add: unregister_loop.simps)
  next
    case True
    show ?thesis
    proof (cases "Some (buf ! i) = event")
      case False
      then show ?thesis using True "1.prems" "1.IH"(2)
        by (simp add: unregister_loop.simps [of event n i])
    next
      case m: True
      show ?thesis
      proof (cases "Suc i \<le> alen")
        case False
        then show ?thesis using True m "1.prems"
          by (simp add: unregister_loop.simps [of event n i])
      next
        case s: True
        have r: "unregister_loop event n (Suc i) (shift_left buf i alen) (alen - 1) = Inr (buf', alen')"
          using True m s "1.prems" by (simp add: unregister_loop.simps [of event n i])
        have "alen - 1 \<le> length (shift_left buf i alen)"
          using s "1.prems"(2) by (simp add: length_shift_left)
        from "1.IH"(1) [OF True m s r this] show ?thesis
          using s "1.prems"(2) by (auto simp add: length_shift_left)
      qed
    qed
  qed
qed














subsection \<open>The registry is only changed by register and unregister\<close>

lemma notify_matching_frame:
  "eventRegistry (notify_matching evPath ks z) = eventRegistry z"
  by (induction ks arbitrary: z) (simp_all add: notify_def Let_def handles_of_def)

lemma handleZkEvent_body_registry:
  "handleZkEvent_body K ks ev st z = Inr (c, st', z') \<Longrightarrow> eventRegistry z' = eventRegistry z"
  by (auto simp add: handleZkEvent_body_def stop_def close_exit_def notify_def notify_matching_frame
      split: if_splits option.splits sum.splits)

lemma stop_registry: "stop z = Inr (b, z') \<Longrightarrow> eventRegistry z' = eventRegistry z"
  by (auto simp add: stop_def close_exit_def split: if_splits)

lemma store_call_registry:
  "store_call L c s z = (r, z') \<Longrightarrow> eventRegistry z' = eventRegistry z"
  by (auto simp add: store_call_def split: prod.splits)

lemma Create_loop_registry:
  "Create_loop L b segs t z = (err, z') \<Longrightarrow> eventRegistry z' = eventRegistry z"
proof (induction segs arbitrary: t z)
  case Nil
  then show ?case by simp
next
  case (Cons str rest)
  show ?case
  proof (cases "conn z")
    case None
    then show ?thesis using Cons.prems by (simp add: Annotatef_def)
  next
    case (Some s)
    obtain r z1 where sc: "store_call L (CreateCall (path_Join [t, ''/'', str]) [] {} (WorldACL PermAll)) s z = (r, z1)"
      by (cases "store_call L (CreateCall (path_Join [t, ''/'', str]) [] {} (WorldACL PermAll)) s z")
    have z1: "eventRegistry z1 = eventRegistry z" using store_call_registry [OF sc] .
    show ?thesis using Cons.prems Some sc z1 Cons.IH [of "path_Join [t, ''/'', str]" z1]
      by (auto simp add: Annotatef_def Let_def split: option.splits if_splits)
  qed
qed

lemma Create_registry: "Create L p z = (err, z') \<Longrightarrow> eventRegistry z' = eventRegistry z"
  unfolding Create_def by (rule Create_loop_registry)

lemma Delete_registry: "Delete L p z = (err, z') \<Longrightarrow> eventRegistry z' = eventRegistry z"
  by (auto simp add: Delete_def store_call_def split: option.splits prod.splits)

lemma RegisterTemp_registry:
  "RegisterTemp L p nd z = (res, z') \<Longrightarrow> eventRegistry z' = eventRegistry z"
  by (auto simp add: RegisterTemp_def store_call_def Let_def split: option.splits prod.splits if_splits)

lemma RegisterTempSeq_registry:
  "RegisterTempSeq L p d z = (res, z') \<Longrightarrow> eventRegistry z' = eventRegistry z"
  by (auto simp add: RegisterTempSeq_def store_call_def Let_def split: option.splits prod.splits if_splits)

lemma getChildrenW_registry:
  "getChildrenW L p z = (res, z') \<Longrightarrow> eventRegistry z' = eventRegistry z"
  by (auto simp add: getChildrenW_def store_call_def Let_def split: option.splits prod.splits if_splits)

lemma getChildren_registry:
  "getChildren L p z = (res, z') \<Longrightarrow> eventRegistry z' = eventRegistry z"
  by (auto simp add: getChildren_def store_call_def Let_def split: option.splits prod.splits if_splits)

lemma existW_registry:
  "existW L p z = (res, z') \<Longrightarrow> eventRegistry z' = eventRegistry z"
  by (auto simp add: existW_def store_call_def Let_def split: option.splits prod.splits if_splits)

lemma registerEvent_nonempty:
  "registry_nonempty z \<Longrightarrow> registry_nonempty (registerEvent p e z)"
  by (auto simp add: registry_nonempty_def registerEvent_def Let_def split: option.splits)

lemma unregisterEvent_nonempty:
  assumes inv: "registry_nonempty z" and u: "unregisterEvent p e z = Inr z'"
  shows "registry_nonempty z'"
proof (cases "p = [] \<or> eventRegistry z p = None")
  case True
  then have "z' = z" using u by (auto simp add: unregisterEvent_def split: if_splits)
  then show ?thesis using inv by simp
next
  case False
  then obtain a where a: "eventRegistry z p = Some a" and p: "p \<noteq> []" by auto
  obtain buf alen where l: "unregister_loop e (length a) 0 a (length a) = Inr (buf, alen)"
    using u a p by (auto simp add: unregisterEvent_def split: sum.splits)
  have b: "alen \<le> length buf" using unregister_loop_bounds [OF l] by simp
  show ?thesis
  proof (cases "alen = 0")
    case True
    then have "eventRegistry z' = (eventRegistry z)(p := None)"
      using u a p l by (auto simp add: unregisterEvent_def)
    then show ?thesis using inv by (auto simp add: registry_nonempty_def split: if_splits)
  next
    case False
    then have "eventRegistry z' = (eventRegistry z)(p \<mapsto> take alen buf)"
      using u a p l by (auto simp add: unregisterEvent_def)
    moreover have "take alen buf \<noteq> []" using False b by auto
    ultimately show ?thesis using inv by (auto simp add: registry_nonempty_def split: if_splits)
  qed
qed

text \<open>
  Claim C9 (no empty entry): in every client that the operations of the file
  produce from a new one, no path of the registry is mapped to an empty list.
\<close>

theorem registry_never_empty_list:
  "reachable K L z \<Longrightarrow> registry_nonempty z"
proof (induction rule: reachable.induct)
  case (r_new nm s)
  show ?case by (simp add: registry_nonempty_def newZookeeperClient_def)
next
  case (r_registerEvent z p e)
  then show ?case by (simp add: registerEvent_nonempty)
next
  case (r_unregisterEvent z p e z')
  then show ?case using unregisterEvent_nonempty by blast
next
  case (r_handleZkEvent z ks ev st c st' z')
  then show ?case using handleZkEvent_body_registry [OF r_handleZkEvent.hyps(2)] by (simp add: registry_nonempty_def)
next
  case (r_stop z b z')
  then show ?case using stop_registry [OF r_stop.hyps(2)] by (simp add: registry_nonempty_def)
next
  case (r_Create z p err z')
  then show ?case using Create_registry [OF r_Create.hyps(2)] by (simp add: registry_nonempty_def)
next
  case (r_Delete z p err z')
  then show ?case using Delete_registry [OF r_Delete.hyps(2)] by (simp add: registry_nonempty_def)
next
  case (r_RegisterTemp z p nd res z')
  then show ?case using RegisterTemp_registry [OF r_RegisterTemp.hyps(2)] by (simp add: registry_nonempty_def)
next
  case (r_RegisterTempSeq z p d res z')
  then show ?case using RegisterTempSeq_registry [OF r_RegisterTempSeq.hyps(2)] by (simp add: registry_nonempty_def)
next
  case (r_getChildrenW z p resw z')
  then show ?case using getChildrenW_registry [OF r_getChildrenW.hyps(2)] by (simp add: registry_nonempty_def)
next
  case (r_getChildren z p res z')
  then show ?case using getChildren_registry [OF r_getChildren.hyps(2)] by (simp add: registry_nonempty_def)
next
  case (r_existW z p rese z')
  then show ?case using existW_registry [OF r_existW.hyps(2)] by (simp add: registry_nonempty_def)
qed

theorem registry_never_empty_list_witness:
  "reachable go_zookeeper flaky_store two_on_a \<and> eventRegistry two_on_a ''/a'' = Some [1, 2]
   \<and> eventRegistry two_on_a ''/a'' \<noteq> Some []"
proof -
  have r: "reachable go_zookeeper flaky_store two_on_a"
    unfolding two_on_a_def by (intro reachable.intros)
  have e: "eventRegistry two_on_a ''/a'' = Some [1, 2]"
    by (simp add: two_on_a_def registerEvent_def newZookeeperClient_def handles_of_def)
  show ?thesis
    using r e registry_never_empty_list [OF r] by (auto simp add: registry_nonempty_def)
qed

subsection \<open>Dispatch of events\<close>

lemma notify_matching_log:
  "notify_matching evPath ks z = z\<lparr> log := log z @ sends_for z evPath ks \<rparr>"
proof (induction ks arbitrary: z)
  case Nil
  then show ?case by (simp add: sends_for_def)
next
  case (Cons p ps)
  have h: "handles_of (notify a z) q = handles_of z q" for a q
    by (simp add: handles_of_def notify_def)
  have s: "sends_for (notify a z) evPath ps = sends_for z evPath ps" for a
    by (simp add: sends_for_def h cong: if_cong)
  show ?case
    by (simp add: Cons.IH Let_def s) (simp add: sends_for_def notify_def)
qed

lemma sends_for_block:
  "p \<in> set ks \<Longrightarrow> HasPrefix p evPath \<Longrightarrow>
     \<exists>pre post. sends_for z evPath ks = pre @ map Send (handles_of z p) @ post"
proof -
  assume "p \<in> set ks" and hp: "HasPrefix p evPath"
  then obtain ks1 ks2 where "ks = ks1 @ p # ks2" by (auto simp add: in_set_conv_decomp)
  then have "sends_for z evPath ks =
      sends_for z evPath ks1 @ map Send (handles_of z p) @ sends_for z evPath ks2"
    using hp by (simp add: sends_for_def)
  then show ?thesis by blast
qed

text \<open>
  Claim C1 (watch fan-out), as the code has it. The source tests
  \<^verbatim>\<open>strings.HasPrefix(p, event.Path)\<close>: on a node-data-changed or
  node-children-changed event, the handles of every registered path \<open>p\<close> that
  \<^emph>\<open>has the event's path as a prefix\<close> are sent to, each path's handles in one
  block in the order of their registration, whatever the order in which the paths
  are visited; nothing else is sent, the registry is untouched, and the event's state
  is recorded. (The claim has the prefix the other way round.)
\<close>

theorem node_changed_fan_out:
  assumes "labels_distinct K"
    and "ev_State event = EventNodeDataChanged K \<or> ev_State event = EventNodeChildrenChanged K"
    and "set ks = dom (eventRegistry z)"
  shows "handleZkEvent_body K ks event state z =
           Inr (NextIteration, ev_State event, z\<lparr> log := log z @ sends_for z (ev_Path event) ks \<rparr>)
         \<and> (\<forall>p a. eventRegistry z p = Some a \<and> HasPrefix p (ev_Path event) \<longrightarrow>
               (\<exists>pre post. sends_for z (ev_Path event) ks = pre @ map Send a @ post))"
proof -
  have nd: "ev_State event \<noteq> StateDisconnected K"
    using assms(1,2) by (auto simp add: labels_distinct_def)
  then have 1: "handleZkEvent_body K ks event state z =
           Inr (NextIteration, ev_State event, z\<lparr> log := log z @ sends_for z (ev_Path event) ks \<rparr>)"
    using assms(2) by (simp add: handleZkEvent_body_def notify_matching_log)
  have 2: "\<exists>pre post. sends_for z (ev_Path event) ks = pre @ map Send a @ post"
    if "eventRegistry z p = Some a" "HasPrefix p (ev_Path event)" for p a
  proof -
    have "p \<in> set ks" using that(1) assms(3) by auto
    moreover have "handles_of z p = a" using that(1) by (simp add: handles_of_def)
    ultimately show ?thesis using sends_for_block [of p ks "ev_Path event" z] that(2) by simp
  qed
  from 1 2 show ?thesis by blast
qed

lemma fan_out_registry:
  "eventRegistry fan_out = [''/a'' \<mapsto> [1, 2], ''/a/b'' \<mapsto> [3]]"
  by (simp add: fan_out_def two_on_a_def registerEvent_def newZookeeperClient_def handles_of_def)

lemma fan_out_log: "log fan_out = []"
  by (simp add: fan_out_def two_on_a_def registerEvent_def newZookeeperClient_def handles_of_def Let_def)

theorem node_changed_fan_out_witness:
  "labels_distinct go_zookeeper
   \<and> ev_State \<lparr> ev_State = 3, ev_Path = ''/a'' \<rparr> = EventNodeDataChanged go_zookeeper
   \<and> set [''/a/b'', ''/a''] = dom (eventRegistry fan_out)
   \<and> handleZkEvent_body go_zookeeper [''/a/b'', ''/a''] \<lparr> ev_State = 3, ev_Path = ''/a'' \<rparr> 0 fan_out =
       Inr (NextIteration, 3, fan_out\<lparr> log := [Send 3, Send 1, Send 2] \<rparr>)"
proof -
  have a: "labels_distinct go_zookeeper"
    by (simp add: labels_distinct_def go_zookeeper_def)
  have b: "ev_State \<lparr> ev_State = 3, ev_Path = ''/a'' \<rparr> = EventNodeDataChanged go_zookeeper
         \<or> ev_State \<lparr> ev_State = 3, ev_Path = ''/a'' \<rparr> = EventNodeChildrenChanged go_zookeeper"
    by (simp add: go_zookeeper_def)
  have c: "set [''/a/b'', ''/a''] = dom (eventRegistry fan_out)"
    by (auto simp add: fan_out_registry)
  have d: "sends_for fan_out ''/a'' [''/a/b'', ''/a''] = [Send 3, Send 1, Send 2]"
    by (simp add: sends_for_def handles_of_def fan_out_registry HasPrefix_def)
  show ?thesis
    using a b c d node_changed_fan_out [OF a b c, of 0]
    by (simp add: fan_out_log go_zookeeper_def)
qed

text \<open>Two handles on \<^verbatim>\<open>/a\<close> and one on \<^verbatim>\<open>/a/b\<close>: an event at \<^verbatim>\<open>/a/b/c\<close> reaches none of
  them, in either order of the keys.\<close>

theorem node_changed_prefix_counterexample:
  "handleZkEvent_body go_zookeeper [''/a/b'', ''/a''] \<lparr> ev_State = 3, ev_Path = ''/a/b/c'' \<rparr> 0 fan_out =
     Inr (NextIteration, 3, fan_out)
   \<and> handleZkEvent_body go_zookeeper [''/a'', ''/a/b''] \<lparr> ev_State = 4, ev_Path = ''/a/b/c'' \<rparr> 0 fan_out =
     Inr (NextIteration, 4, fan_out)
   \<and> handles_of fan_out ''/a'' = [1, 2] \<and> handles_of fan_out ''/a/b'' = [3]"
  by (simp add: handleZkEvent_body_def go_zookeeper_def HasPrefix_def handles_of_def fan_out_registry notify_def)



subsection \<open>Splitting and joining paths\<close>

lemma strings_Split_nonempty: "strings_Split s c \<noteq> []"
  by (induction s) auto

lemma strings_Split_append:
  "c \<notin> set s \<Longrightarrow>
     strings_Split (s @ rest) c = (s @ hd (strings_Split rest c)) # tl (strings_Split rest c)"
  using strings_Split_nonempty [of rest c] by (induction s) (auto simp add: neq_Nil_conv)


lemma strings_Split_no_sep: "c \<notin> set s \<Longrightarrow> strings_Split s c = [s]"
  using strings_Split_append [of c s "[]"] by simp

lemma strings_Split_with_sep: "c \<in> set s \<Longrightarrow> \<exists>x y ys. strings_Split s c = x # y # ys"
proof (induction s)
  case Nil
  then show ?case by simp
next
  case (Cons a s)
  show ?case
  proof (cases "a = c")
    case True
    then show ?thesis using strings_Split_nonempty [of s c] by (auto simp add: neq_Nil_conv)
  next
    case False
    then have "c \<in> set s" using Cons.prems by simp
    from Cons.IH [OF this] show ?thesis using False by auto
  qed
qed





subsection \<open>Create\<close>










text \<open>
  Claim C10 (\<^verbatim>\<open>create\<close> of the empty path): \<^verbatim>\<open>Create("")\<close> returns nil and leaves
  the client, its log of store calls included, as it was, whether the connection
  handle is live or nil.
\<close>

theorem Create_empty_path: "Create L [] z = (None, z)"
  by (simp add: Create_def)

subsection \<open>Operations without a connection\<close>

lemma Create_no_conn:
  assumes "conn z = None"
  shows "Create L p z =
           (if CHR ''/'' \<in> set p
            then (Some (Annotated ZK_CLIENT_CONN_NIL_ERR (''zk.Create(path:'' @ p @ '')'')), z)
            else (None, z))"
proof (cases "CHR ''/'' \<in> set p")
  case True
  from strings_Split_with_sep [OF this] obtain x y ys where
    "strings_Split p CHR ''/'' = x # y # ys" by blast
  then show ?thesis using True assms by (simp add: Create_def Annotatef_def)
next
  case False
  then show ?thesis by (simp add: Create_def strings_Split_no_sep)
qed

text \<open>
  Claim C6 (no connection), as the code has it. With a nil connection handle every
  node operation leaves the client as it is, so makes no store call, and returns
  the error \<^verbatim>\<open>ZK_CLIENT_CONN_NIL_ERR\<close> under an annotation naming the operation
  and the path; except that \<^verbatim>\<open>Create\<close> does so only for a path that contains a
  slash, and returns nil for a path without one.
\<close>

theorem no_connection_fails_fast:
  assumes "conn z = None"
  shows "Create L p z =
           (if CHR ''/'' \<in> set p
            then (Some (Annotated ZK_CLIENT_CONN_NIL_ERR (''zk.Create(path:'' @ p @ '')'')), z)
            else (None, z))
       \<and> Delete L p z = (Some (Annotated ZK_CLIENT_CONN_NIL_ERR (''Delete(basePath:'' @ p @ '')'')), z)
       \<and> RegisterTemp L p nd z =
           (([], Some (Annotated ZK_CLIENT_CONN_NIL_ERR
                         (''zk.Create(path:'' @ p @ '', zk.FlagEphemeral)''))), z)
       \<and> RegisterTempSeq L p d z =
           (([], Some (Annotated ZK_CLIENT_CONN_NIL_ERR
                         (''zk.Create(path:'' @ p @ '', zk.FlagEphemeral|zk.FlagSequence)''))), z)
       \<and> getChildren L p z =
           (([], Some (Annotated ZK_CLIENT_CONN_NIL_ERR (''zk.Children(path:'' @ p @ '')''))), z)
       \<and> getChildrenW L p z =
           (([], None, Some (Annotated ZK_CLIENT_CONN_NIL_ERR (''zk.ChildrenW(path:'' @ p @ '')''))), z)
       \<and> existW L p z =
           ((None, Some (Annotated ZK_CLIENT_CONN_NIL_ERR (''zk.ExistsW(path:'' @ p @ '')''))), z)"
proof -
  have 1: "Delete L p z = (Some (Annotated ZK_CLIENT_CONN_NIL_ERR (''Delete(basePath:'' @ p @ '')'')), z)"
    using assms by (simp add: Delete_def Annotatef_def)
  have 2: "RegisterTemp L p nd z =
           (([], Some (Annotated ZK_CLIENT_CONN_NIL_ERR
                         (''zk.Create(path:'' @ p @ '', zk.FlagEphemeral)''))), z)"
    using assms by (simp add: RegisterTemp_def Annotatef_def)
  have 3: "RegisterTempSeq L p d z =
           (([], Some (Annotated ZK_CLIENT_CONN_NIL_ERR
                         (''zk.Create(path:'' @ p @ '', zk.FlagEphemeral|zk.FlagSequence)''))), z)"
    using assms by (simp add: RegisterTempSeq_def Annotatef_def)
  have 4: "getChildren L p z =
           (([], Some (Annotated ZK_CLIENT_CONN_NIL_ERR (''zk.Children(path:'' @ p @ '')''))), z)"
    using assms by (simp add: getChildren_def Annotatef_def)
  have 5: "getChildrenW L p z =
           (([], None, Some (Annotated ZK_CLIENT_CONN_NIL_ERR (''zk.ChildrenW(path:'' @ p @ '')''))), z)"
    using assms by (simp add: getChildrenW_def Annotatef_def)
  have 6: "existW L p z =
           ((None, Some (Annotated ZK_CLIENT_CONN_NIL_ERR (''zk.ExistsW(path:'' @ p @ '')''))), z)"
    using assms by (simp add: existW_def Annotatef_def)
  from Create_no_conn [OF assms] 1 2 3 4 5 6 show ?thesis by blast
qed

theorem no_connection_fails_fast_witness:
  "conn closed_client = None
   \<and> Create flaky_store ''/a'' closed_client =
       (Some (Annotated ZK_CLIENT_CONN_NIL_ERR ''zk.Create(path:/a)''), closed_client)
   \<and> Delete flaky_store ''/a'' closed_client =
       (Some (Annotated ZK_CLIENT_CONN_NIL_ERR ''Delete(basePath:/a)''), closed_client)
   \<and> RegisterTemp flaky_store ''/a'' ''n'' closed_client =
       (([], Some (Annotated ZK_CLIENT_CONN_NIL_ERR ''zk.Create(path:/a, zk.FlagEphemeral)'')),
        closed_client)
   \<and> RegisterTempSeq flaky_store ''/a'' ''v1'' closed_client =
       (([], Some (Annotated ZK_CLIENT_CONN_NIL_ERR
                     ''zk.Create(path:/a, zk.FlagEphemeral|zk.FlagSequence)'')), closed_client)
   \<and> getChildren flaky_store ''/a'' closed_client =
       (([], Some (Annotated ZK_CLIENT_CONN_NIL_ERR ''zk.Children(path:/a)'')), closed_client)
   \<and> getChildrenW flaky_store ''/a'' closed_client =
       (([], None, Some (Annotated ZK_CLIENT_CONN_NIL_ERR ''zk.ChildrenW(path:/a)'')),
        closed_client)
   \<and> existW flaky_store ''/a'' closed_client =
       ((None, Some (Annotated ZK_CLIENT_CONN_NIL_ERR ''zk.ExistsW(path:/a)'')), closed_client)
   \<and> log closed_client = []"
proof -
  have h: "conn closed_client = None" by (simp add: closed_client_def)
  have l: "log closed_client = []" by (simp add: closed_client_def newZookeeperClient_def)
  show ?thesis
    using h l no_connection_fails_fast [OF h, of flaky_store "''/a''" "''n''" "''v1''"] by simp
qed

text \<open>Without a connection, \<^verbatim>\<open>Create\<close> of a path without a slash returns nil.\<close>

theorem Create_without_connection_succeeds:
  "conn closed_client = None
   \<and> Create flaky_store [] closed_client = (None, closed_client)
   \<and> Create flaky_store ''services'' closed_client = (None, closed_client)"
  by (simp add: Create_def closed_client_def)

subsection \<open>Listing children\<close>

lemma getChildren_cases:
  "fst (getChildren L p z) =
     (case conn z of
        None \<Rightarrow> ([], Some (Annotated ZK_CLIENT_CONN_NIL_ERR (''zk.Children(path:'' @ p @ '')'')))
      | Some s \<Rightarrow>
          let r = fst (L (ChildrenCall p) s)
          in if no_children r then ([], Some (none_children_err p))
             else (case r_err r of
                     Some e \<Rightarrow> ([], Some (Annotated e (''zk.Children(path:'' @ p @ '')'')))
                   | None \<Rightarrow> (r_children r, None)))"
proof (cases "conn z")
  case None
  then show ?thesis by (simp add: getChildren_def Annotatef_def)
next
  case (Some s)
  obtain r s' where l: "L (ChildrenCall p) s = (r, s')" by (cases "L (ChildrenCall p) s")
  show ?thesis
  proof (cases "r_err r")
    case None
    then show ?thesis using Some l
      by (simp add: getChildren_def store_call_def no_children_def none_children_err_def)
  next
    case e: (Some e)
    then show ?thesis using Some l
      by (simp add: getChildren_def store_call_def no_children_def none_children_err_def Annotatef_def)
  qed
qed

lemma getChildrenW_cases:
  "fst (getChildrenW L p z) =
     (case conn z of
        None \<Rightarrow> ([], None, Some (Annotated ZK_CLIENT_CONN_NIL_ERR (''zk.ChildrenW(path:'' @ p @ '')'')))
      | Some s \<Rightarrow>
          let r = fst (L (ChildrenWCall p) s)
          in if no_children r then ([], None, Some (none_children_err p))
             else (case r_err r of
                     Some e \<Rightarrow> ([], None, Some (Annotated e (''zk.ChildrenW(path:'' @ p @ '')'')))
                   | None \<Rightarrow> (r_children r, r_watch r, None)))"
proof (cases "conn z")
  case None
  then show ?thesis by (simp add: getChildrenW_def Annotatef_def)
next
  case (Some s)
  obtain r s' where l: "L (ChildrenWCall p) s = (r, s')" by (cases "L (ChildrenWCall p) s")
  show ?thesis
  proof (cases "r_err r")
    case None
    then show ?thesis using Some l
      by (simp add: getChildrenW_def store_call_def no_children_def none_children_err_def)
  next
    case e: (Some e)
    then show ?thesis using Some l
      by (simp add: getChildrenW_def store_call_def no_children_def none_children_err_def Annotatef_def)
  qed
qed

text \<open>
  Claim C7 (children listing): with a live connection, when the store reports
  no-node, or returns no stat, or returns an empty list of children, \<^verbatim>\<open>getChildren\<close>
  and \<^verbatim>\<open>getChildrenW\<close> return one and the same "has none children" error for the
  path; and whenever either returns without error its list of children is not
  empty.
\<close>

theorem children_errors_collapse:
  "(conn z = Some s \<and> no_children (fst (L (ChildrenCall p) s)) \<longrightarrow>
      fst (getChildren L p z) = ([], Some (none_children_err p)))
   \<and> (conn z = Some s \<and> no_children (fst (L (ChildrenWCall p) s)) \<longrightarrow>
      fst (getChildrenW L p z) = ([], None, Some (none_children_err p)))
   \<and> (snd (fst (getChildren L p z)) = None \<longrightarrow> fst (fst (getChildren L p z)) \<noteq> [])
   \<and> (snd (snd (fst (getChildrenW L p z))) = None \<longrightarrow> fst (fst (getChildrenW L p z)) \<noteq> [])"
proof (intro conjI impI)
  assume "conn z = Some s \<and> no_children (fst (L (ChildrenCall p) s))"
  then show "fst (getChildren L p z) = ([], Some (none_children_err p))"
    by (simp add: getChildren_cases)
next
  assume "conn z = Some s \<and> no_children (fst (L (ChildrenWCall p) s))"
  then show "fst (getChildrenW L p z) = ([], None, Some (none_children_err p))"
    by (simp add: getChildrenW_cases)
next
  assume "snd (fst (getChildren L p z)) = None"
  then show "fst (fst (getChildren L p z)) \<noteq> []"
    unfolding getChildren_cases
    by (auto simp add: Let_def no_children_def split: option.splits if_splits)
next
  assume "snd (snd (fst (getChildrenW L p z))) = None"
  then show "fst (fst (getChildrenW L p z)) \<noteq> []"
    unfolding getChildrenW_cases
    by (auto simp add: Let_def no_children_def split: option.splits if_splits)
qed

theorem children_errors_collapse_witness:
  "conn (newZookeeperClient ''c'' (0::nat)) = Some 0
   \<and> no_children (fst (children_store (ChildrenCall ''/p'') 0))
   \<and> no_children (fst (children_store (ChildrenCall ''/p'') 1))
   \<and> no_children (fst (children_store (ChildrenCall ''/p'') 2))
   \<and> fst (getChildren children_store ''/p'' (newZookeeperClient ''c'' 0))
       = ([], Some (Errorf ''path{/p} has none children''))
   \<and> fst (getChildren children_store ''/p'' (newZookeeperClient ''c'' 1))
       = ([], Some (Errorf ''path{/p} has none children''))
   \<and> fst (getChildren children_store ''/p'' (newZookeeperClient ''c'' 2))
       = ([], Some (Errorf ''path{/p} has none children''))
   \<and> fst (getChildrenW children_store ''/p'' (newZookeeperClient ''c'' 2))
       = ([], None, Some (Errorf ''path{/p} has none children''))
   \<and> fst (getChildren children_store ''/p'' (newZookeeperClient ''c'' 3)) = ([''x''], None)"
proof -
  have c: "conn (newZookeeperClient ''c'' (k::nat)) = Some k" for k
    by (simp add: newZookeeperClient_def)
  have n: "no_children (fst (children_store (ChildrenCall ''/p'') 0))"
    "no_children (fst (children_store (ChildrenCall ''/p'') 1))"
    "no_children (fst (children_store (ChildrenCall ''/p'') 2))"
    "no_children (fst (children_store (ChildrenWCall ''/p'') 2))"
    by (simp_all add: no_children_def children_store_def reply_err_def reply_path_def)
  have ok: "fst (getChildren children_store ''/p'' (newZookeeperClient ''c'' 3)) = ([''x''], None)"
    by (simp add: getChildren_def store_call_def children_store_def reply_path_def
        newZookeeperClient_def)
  show ?thesis
    using c n ok
      children_errors_collapse [of "newZookeeperClient ''c'' 0" 0 children_store "''/p''"]
      children_errors_collapse [of "newZookeeperClient ''c'' 1" 1 children_store "''/p''"]
      children_errors_collapse [of "newZookeeperClient ''c'' 2" 2 children_store "''/p''"]
    by (simp add: none_children_err_def)
qed

subsection \<open>Interleavings of Close and the background task\<close>


lemmas pc_preds = in_critical_def past_stop_def past_wait_def bg_gone_def closer_pc_def bg_pc_def
  after_stop_def

























text \<open>Left alone, the background task does on a Disconnected event what the body of
  the loop says in one piece.\<close>

lemma bg_disconnected_agrees:
  assumes "pcs \<sigma> Bg = Select" and "mutex \<sigma> = None" and "ev_State ev = StateDisconnected K"
  shows "handleZkEvent_body K ks ev (bg_state \<sigma>) (client \<sigma>)
           = Inr (BreakLoop, bg_state \<sigma>, client (run K (bg_alone ev ks) \<sigma>))
         \<and> pcs (run K (bg_alone ev ks) \<sigma>) Bg = Finished"
proof (cases "exit_closed (client \<sigma>)")
  case True
  show ?thesis
  proof (cases "conn (client \<sigma>)")
    case None
    then show ?thesis using assms True
      by (simp add: bg_alone_def run_def fire_def recv_def step_thread_def goto_def handleZkEvent_body_def
          stop_def close_exit_def after_stop_def eval_nat_numeral)
  next
    case (Some s)
    then show ?thesis using assms True
      by (simp add: bg_alone_def run_def fire_def recv_def step_thread_def goto_def handleZkEvent_body_def
          stop_def close_exit_def after_stop_def eval_nat_numeral)
  qed
next
  case False
  show ?thesis
  proof (cases "conn (client \<sigma>)")
    case None
    then show ?thesis using assms False
      by (simp add: bg_alone_def run_def fire_def recv_def step_thread_def goto_def handleZkEvent_body_def
          stop_def close_exit_def after_stop_def eval_nat_numeral)
  next
    case (Some s)
    then show ?thesis using assms False
      by (simp add: bg_alone_def run_def fire_def recv_def step_thread_def goto_def handleZkEvent_body_def
          stop_def close_exit_def after_stop_def eval_nat_numeral)
  qed
qed




end
